theory Spec2Isabelle
  imports Main "HOL-Library.Sublist"
begin

section \<open>Strings\<close>

text \<open>
  Go strings are byte sequences; they are modelled as \<open>string\<close> (a list of \<open>char\<close>, one
  per byte). \<open>strings.Contains(s, sub)\<close> is \<open>sublist sub s\<close> and
  \<open>strings.HasPrefix(s, p)\<close> is \<open>prefix p s\<close>, both from the library and both executable.

  \<open>strings.ToLower\<close> first looks for a byte at or above \<open>utf8.RuneSelf\<close> (128). When
  there is none it works on the bytes: \<open>A\<close> .. \<open>Z\<close> are moved to \<open>a\<close> .. \<open>z\<close> and every
  other byte is kept. Otherwise it returns \<open>Map(unicode.ToLower, s)\<close>, which decodes the
  string as UTF-8 and maps every rune through the Unicode case tables. \<open>Map\<close> and the
  tables are library code, not part of this program: they are the parameter \<open>uni\<close> of
  \<open>ToLower\<close> and of every function that lower-cases, and nothing is assumed about it.
\<close>

definition isASCII :: "char \<Rightarrow> bool" where
  "isASCII c = ((of_char c :: nat) < 128)"

definition lowerByte :: "char \<Rightarrow> char" where
  "lowerByte c =
     (if 65 \<le> (of_char c :: nat) \<and> (of_char c :: nat) \<le> 90
      then char_of ((of_char c :: nat) + 32) else c)"

definition ToLower :: "(string \<Rightarrow> string) \<Rightarrow> string \<Rightarrow> string" where
  "ToLower uni s = (if list_all isASCII s then map lowerByte s else uni s)"

definition Contains :: "string \<Rightarrow> string \<Rightarrow> bool" where
  "Contains s sub = sublist sub s"

definition HasPrefix :: "string \<Rightarrow> string \<Rightarrow> bool" where
  "HasPrefix s p = prefix p s"

text \<open>\<open>fmt.Sprint\<close> of an \<open>int\<close>: the decimal digits, with a minus sign below zero.\<close>

definition digitChar :: "nat \<Rightarrow> char" where
  "digitChar d = char_of (48 + d)"

fun natDigits :: "nat \<Rightarrow> string" where
  "natDigits n = (if n < 10 then [digitChar n] else natDigits (n div 10) @ [digitChar (n mod 10)])"

declare natDigits.simps [simp del]

definition Sprint :: "int \<Rightarrow> string" where
  "Sprint i = (if i < 0 then CHR ''-'' # natDigits (nat (- i)) else natDigits (nat i))"

section \<open>The pattern matcher behind \<open>regexp\<close>\<close>

text \<open>
  The first variant uses two regular expressions,
  \<^verbatim>\<open><a[^>]*href="([^"]*)"[^>]*>(.*?)</a>|<button[^>]*>(.*?)</button>\<close> and
  \<^verbatim>\<open><form[^>]*>\<close>. Both are alternatives of sequences whose items are a literal byte,
  a greedy star of a negated one-byte class, a lazy star of \<open>.\<close> (any byte but newline),
  or a capture-group boundary. Go returns the match a backtracking search finds first
  (leftmost, then in the priority order of the pattern); \<open>matchHere\<close> is that search.
  Captures are kept as Go keeps them: positions into the subject, slot \<open>2 * n\<close> the start
  and slot \<open>2 * n + 1\<close> the end of group \<open>n\<close>.
\<close>

datatype cls = NotCh char | AnyButNL

fun clsOk :: "cls \<Rightarrow> char \<Rightarrow> bool" where
  "clsOk (NotCh c) x = (x \<noteq> c)"
| "clsOk AnyButNL x = (x \<noteq> CHR 0x0A)"

datatype item = Lit char | Star cls | LazyStar cls | GOpen nat | GClose nat

type_synonym caps = "nat \<rightharpoonup> nat"

fun matchHere :: "item list \<Rightarrow> string \<Rightarrow> nat \<Rightarrow> caps \<Rightarrow> (nat \<times> caps) option" where
  "matchHere [] s pos cp = Some (pos, cp)"
| "matchHere (Lit c # r) [] pos cp = None"
| "matchHere (Lit c # r) (x # xs) pos cp =
     (if x = c then matchHere r xs (Suc pos) cp else None)"
| "matchHere (Star k # r) [] pos cp = matchHere r [] pos cp"
| "matchHere (Star k # r) (x # xs) pos cp =
     (if clsOk k x
      then (case matchHere (Star k # r) xs (Suc pos) cp of
              Some res \<Rightarrow> Some res
            | None \<Rightarrow> matchHere r (x # xs) pos cp)
      else matchHere r (x # xs) pos cp)"
| "matchHere (LazyStar k # r) [] pos cp = matchHere r [] pos cp"
| "matchHere (LazyStar k # r) (x # xs) pos cp =
     (case matchHere r (x # xs) pos cp of
        Some res \<Rightarrow> Some res
      | None \<Rightarrow> (if clsOk k x then matchHere (LazyStar k # r) xs (Suc pos) cp else None))"
| "matchHere (GOpen n # r) s pos cp = matchHere r s pos (cp(2 * n \<mapsto> pos))"
| "matchHere (GClose n # r) s pos cp = matchHere r s pos (cp(2 * n + 1 \<mapsto> pos))"

text \<open>Alternatives are tried in the order written; the first that matches wins.\<close>

fun matchAlts :: "item list list \<Rightarrow> string \<Rightarrow> nat \<Rightarrow> (nat \<times> caps) option" where
  "matchAlts [] s pos = None"
| "matchAlts (a # as) s pos =
     (case matchHere a s pos Map.empty of
        Some res \<Rightarrow> Some res
      | None \<Rightarrow> matchAlts as s pos)"

text \<open>\<open>re.MatchString\<close>: is there a match starting at some position.\<close>

fun MatchString :: "item list list \<Rightarrow> string \<Rightarrow> bool" where
  "MatchString re [] = (case matchAlts re [] 0 of Some res \<Rightarrow> True | None \<Rightarrow> False)"
| "MatchString re (x # xs) =
     (case matchAlts re (x # xs) 0 of Some res \<Rightarrow> True | None \<Rightarrow> MatchString re xs)"

text \<open>
  \<open>re.FindAllStringSubmatch(body, -1)\<close>: the successive non-overlapping matches, left to
  right. \<open>findAllFrom\<close> walks the rest \<open>s\<close> of the subject, \<open>pos\<close> being its offset;
  after a match ending at \<open>e\<close> the search resumes at \<open>e\<close>. Both patterns of the program
  begin with a literal, so a match is never empty; the branch for \<open>e \<le> pos\<close> only moves
  on by one byte.
\<close>

function findAllFrom :: "item list list \<Rightarrow> string \<Rightarrow> nat \<Rightarrow> (nat \<times> nat \<times> caps) list" where
  "findAllFrom re [] pos = []"
| "findAllFrom re (x # xs) pos =
     (case matchAlts re (x # xs) pos of
        None \<Rightarrow> findAllFrom re xs (Suc pos)
      | Some (e, cp) \<Rightarrow>
          (if pos < e
           then (pos, e, cp) # findAllFrom re (drop (e - pos) (x # xs)) e
           else findAllFrom re xs (Suc pos)))"
  by pat_completeness auto
termination
  by (relation "measure (\<lambda>(re, s, pos). length s)") auto

text \<open>
  The text of group \<open>n\<close> of a match, as \<open>FindAllStringSubmatch\<close> returns it: the slice
  of the subject between the two slots, and the empty string for a group that took no
  part in the match. Group \<open>0\<close> is the whole match.
\<close>

definition slice :: "string \<Rightarrow> nat \<Rightarrow> nat \<Rightarrow> string" where
  "slice s a b = take (b - a) (drop a s)"

definition groupText :: "string \<Rightarrow> caps \<Rightarrow> nat \<Rightarrow> string" where
  "groupText s cp n =
     (case (cp (2 * n), cp (2 * n + 1)) of
        (Some a, Some b) \<Rightarrow> slice s a b
      | _ \<Rightarrow> [])"

definition FindAllStringSubmatch :: "item list list \<Rightarrow> nat \<Rightarrow> string \<Rightarrow> string list list" where
  "FindAllStringSubmatch re ngroups s =
     map (\<lambda>(b, e, cp). slice s b e # map (groupText s cp) [1 ..< Suc ngroups])
         (findAllFrom re s 0)"

definition lits :: "string \<Rightarrow> item list" where
  "lits s = map Lit s"

definition linkPattern :: "item list list" where
  "linkPattern =
     [ lits ''<a'' @ [Star (NotCh CHR ''>'')] @ lits ''href='' @ [Lit (CHR 0x22)]
         @ [GOpen 1, Star (NotCh (CHR 0x22)), GClose 1] @ [Lit (CHR 0x22)]
         @ [Star (NotCh CHR ''>''), Lit CHR ''>'']
         @ [GOpen 2, LazyStar AnyButNL, GClose 2] @ lits ''</a>'',
       lits ''<button'' @ [Star (NotCh CHR ''>''), Lit CHR ''>'']
         @ [GOpen 3, LazyStar AnyButNL, GClose 3] @ lits ''</button>'' ]"

definition formPattern :: "item list list" where
  "formPattern = [ lits ''<form'' @ [Star (NotCh CHR ''>''), Lit CHR ''>''] ]"

section \<open>The classifier, first variant\<close>

definition createAccountKeywords :: "string list" where
  "createAccountKeywords =
     [''login'', ''register'', ''signup'', ''signin'', ''create account'', ''log in'',
      ''sign in'', ''sign up'', ''authentication'', ''forgot password'', ''reset password'']"

text \<open>The loop of \<open>findMatchingKeyword\<close>: the first keyword the lower-cased body contains.\<close>

fun firstKeyword :: "(string \<Rightarrow> string) \<Rightarrow> string list \<Rightarrow> string \<Rightarrow> string" where
  "firstKeyword uni [] body = []"
| "firstKeyword uni (keyword # ks) body =
     (if Contains (ToLower uni body) keyword then keyword else firstKeyword uni ks body)"

definition findMatchingKeyword :: "(string \<Rightarrow> string) \<Rightarrow> string \<Rightarrow> string" where
  "findMatchingKeyword uni body = firstKeyword uni createAccountKeywords body"

text \<open>
  The loop of \<open>containsCreateAccountLinks\<close> over the matches. Every match has four
  entries (the whole match and three groups), so the two length tests of the source are
  written out on the list as they stand.
\<close>

fun linkLoop :: "(string \<Rightarrow> string) \<Rightarrow> string list list \<Rightarrow> bool" where
  "linkLoop uni [] = False"
| "linkLoop uni (m # ms) =
     (if 1 < length m \<and> findMatchingKeyword uni (m ! 1) \<noteq> [] then True
      else if 2 < length m \<and> findMatchingKeyword uni (m ! 2) \<noteq> [] then True
      else linkLoop uni ms)"

definition containsCreateAccountLinks :: "(string \<Rightarrow> string) \<Rightarrow> string \<Rightarrow> bool" where
  "containsCreateAccountLinks uni body =
     linkLoop uni (FindAllStringSubmatch linkPattern 3 body)"

definition containsForm :: "string \<Rightarrow> bool" where
  "containsForm body = MatchString formPattern body"

section \<open>The classifier, second variant\<close>

definition keywords2 :: "string list" where
  "keywords2 = [''create account'', ''sign up'', ''register'', ''join'', ''signup'']"

definition findMatchingKeyword2 :: "(string \<Rightarrow> string) \<Rightarrow> string \<Rightarrow> string" where
  "findMatchingKeyword2 uni body = firstKeyword uni keywords2 body"

definition containsForm2 :: "string \<Rightarrow> bool" where
  "containsForm2 body = Contains body ''<form''"

definition links2 :: "string list" where
  "links2 = [''create account'', ''sign up'', ''register'', ''join'']"

fun anyLink :: "(string \<Rightarrow> string) \<Rightarrow> string list \<Rightarrow> string \<Rightarrow> bool" where
  "anyLink uni [] body = False"
| "anyLink uni (link # ls) body =
     (if Contains (ToLower uni body) link then True else anyLink uni ls body)"

definition containsCreateAccountLinks2 :: "(string \<Rightarrow> string) \<Rightarrow> string \<Rightarrow> bool" where
  "containsCreateAccountLinks2 uni body = anyLink uni links2 body"

section \<open>The candidate scanner\<close>

text \<open>
  \<open>checkSubdomain\<close> is the same loop in both variants; they differ in the path list and
  in the three classifier functions, which are gathered in a record.
\<close>

record classifier =
  paths :: "string list"
  keywordOf :: "string \<Rightarrow> string"
  formIn :: "string \<Rightarrow> bool"
  linksIn :: "string \<Rightarrow> bool"

definition createAccountPaths :: "string list" where
  "createAccountPaths =
     [''login'', ''register'', ''signup'', ''signin'', ''create-account'', ''log-in'',
      ''sign-in'', ''sign-up'', ''authentication'', ''forgot-password'', ''reset-password'']"

definition createAccountPaths2 :: "string list" where
  "createAccountPaths2 =
     [''signup'', ''register'', ''create-account'', ''account/create'', ''user/create'',
      ''account/signup'']"

definition variant1 :: "(string \<Rightarrow> string) \<Rightarrow> classifier" where
  "variant1 uni = \<lparr> paths = createAccountPaths, keywordOf = findMatchingKeyword uni,
                     formIn = containsForm, linksIn = containsCreateAccountLinks uni \<rparr>"

definition variant2 :: "(string \<Rightarrow> string) \<Rightarrow> classifier" where
  "variant2 uni = \<lparr> paths = createAccountPaths2, keywordOf = findMatchingKeyword2 uni,
                     formIn = containsForm2, linksIn = containsCreateAccountLinks2 uni \<rparr>"

text \<open>
  The network is a function from the requested URL to what \<open>httpClient.Get\<close> and
  \<open>ioutil.ReadAll\<close> give for it: a transport error, or a response with its status code,
  its \<open>Location\<close> header (empty when absent) and the body read, which can fail too.
\<close>

datatype bodyRead = ReadFailed | Body string

datatype probe = GetFailed | Response int string bodyRead

type_synonym server = "string \<Rightarrow> probe"

text \<open>The test of lines 166 and 397 that sends the loop to the next path.\<close>

definition statusSkipped :: "int \<Rightarrow> bool" where
  "statusSkipped code = (code \<noteq> 200 \<and> \<not> HasPrefix (Sprint code) ''3'')"

definition KeywordWithForm :: string where
  "KeywordWithForm = ''Keywords in body with form''"

definition LinkWithForm :: string where
  "LinkWithForm = ''Links or buttons in body with form''"

text \<open>
  What the loop leaves behind: the flag \<open>checkSubdomain\<close> returns, the three variables
  its report line prints, and the URLs requested, in order.
\<close>

record scanResult =
  found :: bool
  detectionMethod :: string
  matchedKeyword :: string
  redirectURL :: string
  requested :: "string list"

definition asked :: "string \<Rightarrow> scanResult \<Rightarrow> scanResult" where
  "asked url r = r \<lparr> requested := url # requested r \<rparr>"

text \<open>
  The \<open>for\<close> loop over the paths; \<open>redir\<close> and \<open>kw\<close> are the variables \<open>redirectURL\<close>
  and \<open>matchedKeyword\<close>, which survive from one iteration to the next. Every
  \<open>continue\<close> is the recursive call, every \<open>break\<close> returns.
\<close>

fun pathLoop :: "classifier \<Rightarrow> server \<Rightarrow> string \<Rightarrow> string list \<Rightarrow> string \<Rightarrow> string \<Rightarrow> scanResult" where
  "pathLoop cl srv subdomain [] redir kw =
     \<lparr> found = False, detectionMethod = [], matchedKeyword = kw, redirectURL = redir,
       requested = [] \<rparr>"
| "pathLoop cl srv subdomain (path # rest) redir kw =
     (let url = subdomain @ ''/'' @ path in
      case srv url of
        GetFailed \<Rightarrow> asked url (pathLoop cl srv subdomain rest redir kw)
      | Response code loc rd \<Rightarrow>
          (let redir' = (if 300 \<le> code \<and> code < 400 then loc else redir) in
           if statusSkipped code then asked url (pathLoop cl srv subdomain rest redir' kw)
           else
             (case rd of
                ReadFailed \<Rightarrow> asked url (pathLoop cl srv subdomain rest redir' kw)
              | Body body \<Rightarrow>
                  if 10000 < length body
                  then asked url (pathLoop cl srv subdomain rest redir' kw)
                  else
                    (let kw' = keywordOf cl body in
                     if kw' \<noteq> [] \<and> formIn cl body
                     then \<lparr> found = True, detectionMethod = KeywordWithForm,
                            matchedKeyword = kw', redirectURL = redir', requested = [url] \<rparr>
                     else if linksIn cl body \<and> formIn cl body
                     then \<lparr> found = True, detectionMethod = LinkWithForm,
                            matchedKeyword = kw', redirectURL = redir', requested = [url] \<rparr>
                     else asked url (pathLoop cl srv subdomain rest redir' kw')))))"

definition checkSubdomain :: "classifier \<Rightarrow> server \<Rightarrow> string \<Rightarrow> scanResult" where
  "checkSubdomain cl srv subdomain = pathLoop cl srv subdomain (paths cl) [] []"

text \<open>
  One iteration seen alone: \<open>pathMatches\<close> says whether the iteration for \<open>path\<close> ends
  in one of the two \<open>break\<close>s. It depends on the response only, not on the loop variables.
\<close>

definition pathMatches :: "classifier \<Rightarrow> server \<Rightarrow> string \<Rightarrow> string \<Rightarrow> bool" where
  "pathMatches cl srv subdomain path =
     (case srv (subdomain @ ''/'' @ path) of
        GetFailed \<Rightarrow> False
      | Response code loc rd \<Rightarrow>
          \<not> statusSkipped code \<and>
          (case rd of
             ReadFailed \<Rightarrow> False
           | Body body \<Rightarrow>
               \<not> 10000 < length body \<and>
               ((keywordOf cl body \<noteq> [] \<and> formIn cl body) \<or> (linksIn cl body \<and> formIn cl body))))"

section \<open>The orchestrator\<close>

text \<open>
  \<open>main\<close> starts one goroutine per candidate and waits for all of them. The goroutines
  run interleaved, so the model is a step function on the shared variables and the
  program counter of every goroutine, run along a schedule (the list of the goroutines
  that move, in order). The program counters follow the statements of the goroutine:
  line 66 (the call of \<open>checkSubdomain\<close>), line 67 (\<open>append\<close> reads the slice, then the
  assignment writes it), lines 70 to 72 (lock, increment, unlock) and line 75 (the send
  on the unbuffered channel to \<open>animatedIndicator\<close>, which receives until \<open>main\<close> stops
  it after \<open>wg.Wait\<close>).

  The send of line 75 is one step. Its operand is the variable \<open>progress\<close> that the
  goroutines share: the compiled program gives the runtime the address of that
  variable, and the runtime copies the value at the moment the receiver takes it. So
  the value delivered is the value of the counter at the hand-over, not at the moment
  the goroutine reached line 75.

  In the second variant the goroutine keeps no list: \<open>checkSubdomain\<close> itself writes the
  matched candidate to the output file (line 434, when an output file was given), one
  write per call. The counter is a Go \<open>int\<close>; it only counts goroutines, so it is a
  \<open>nat\<close> here.
\<close>

datatype wpc =
    AtCheck
  | AtAppendRead
  | AtAppendWrite "string list"
  | AtLock
  | AtIncr
  | AtUnlock
  | AtSend
  | Finished

record shared =
  validSubdomains :: "string list"
  outputFile :: "string list"
  progress :: nat
  muHolder :: "nat option"
  received :: "nat list"
  workers :: "wpc list"

datatype program = FirstVariant | SecondVariant

fun workerStep :: "program \<Rightarrow> (string \<Rightarrow> bool) \<Rightarrow> string \<Rightarrow> nat \<Rightarrow> wpc \<Rightarrow> shared \<Rightarrow> (wpc \<times> shared) option" where
  "workerStep FirstVariant chk c i AtCheck s =
     Some (if chk c then AtAppendRead else AtLock, s)"
| "workerStep SecondVariant chk c i AtCheck s =
     Some (AtLock, if chk c then s \<lparr> outputFile := outputFile s @ [c] \<rparr> else s)"
| "workerStep prog chk c i AtAppendRead s = Some (AtAppendWrite (validSubdomains s), s)"
| "workerStep prog chk c i (AtAppendWrite old) s =
     Some (AtLock, s \<lparr> validSubdomains := old @ [c] \<rparr>)"
| "workerStep prog chk c i AtLock s =
     (if muHolder s = None then Some (AtIncr, s \<lparr> muHolder := Some i \<rparr>) else None)"
| "workerStep prog chk c i AtIncr s = Some (AtUnlock, s \<lparr> progress := progress s + 1 \<rparr>)"
| "workerStep prog chk c i AtUnlock s = Some (AtSend, s \<lparr> muHolder := None \<rparr>)"
| "workerStep prog chk c i AtSend s =
     Some (Finished, s \<lparr> received := received s @ [progress s] \<rparr>)"
| "workerStep prog chk c i Finished s = None"

text \<open>Goroutine \<open>i\<close> makes its next step; \<open>None\<close> when it cannot move (it is blocked or done).\<close>

definition step :: "program \<Rightarrow> (string \<Rightarrow> bool) \<Rightarrow> string list \<Rightarrow> nat \<Rightarrow> shared \<Rightarrow> shared option" where
  "step prog chk subdomains i s =
     (if i < length subdomains \<and> i < length (workers s)
      then (case workerStep prog chk (subdomains ! i) i (workers s ! i) s of
              None \<Rightarrow> None
            | Some (pc, s') \<Rightarrow> Some (s' \<lparr> workers := (workers s') [i := pc] \<rparr>))
      else None)"

fun exec :: "program \<Rightarrow> (string \<Rightarrow> bool) \<Rightarrow> string list \<Rightarrow> nat list \<Rightarrow> shared \<Rightarrow> shared option" where
  "exec prog chk subdomains [] s = Some s"
| "exec prog chk subdomains (i # sched) s =
     (case step prog chk subdomains i s of
        None \<Rightarrow> None
      | Some s' \<Rightarrow> exec prog chk subdomains sched s')"

definition initial :: "string list \<Rightarrow> shared" where
  "initial subdomains =
     \<lparr> validSubdomains = [], outputFile = [], progress = 0, muHolder = None, received = [],
       workers = replicate (length subdomains) AtCheck \<rparr>"

text \<open>\<open>wg.Wait\<close> returns once every goroutine has run to its end.\<close>

definition allDone :: "shared \<Rightarrow> bool" where
  "allDone s = list_all (\<lambda>pc. pc = Finished) (workers s)"

text \<open>A run of \<open>main\<close> along a schedule: the state in which \<open>wg.Wait\<close> returns.\<close>

definition mainRun :: "program \<Rightarrow> (string \<Rightarrow> bool) \<Rightarrow> string list \<Rightarrow> nat list \<Rightarrow> shared option" where
  "mainRun prog chk subdomains sched =
     (case exec prog chk subdomains sched (initial subdomains) of
        None \<Rightarrow> None
      | Some s \<Rightarrow> if allDone s then Some s else None)"

text \<open>The verdict of \<open>checkSubdomain\<close> that the goroutines of each variant test.\<close>

definition verdict1 :: "(string \<Rightarrow> string) \<Rightarrow> server \<Rightarrow> string \<Rightarrow> bool" where
  "verdict1 uni srv subdomain = found (checkSubdomain (variant1 uni) srv subdomain)"

definition verdict2 :: "(string \<Rightarrow> string) \<Rightarrow> server \<Rightarrow> string \<Rightarrow> bool" where
  "verdict2 uni srv subdomain = found (checkSubdomain (variant2 uni) srv subdomain)"

section \<open>Bookkeeping for the goroutines\<close>

text \<open>
  Where a goroutine stands: \<open>counted\<close> is 1 once it has executed \<open>progress++\<close>,
  \<open>handedOver\<close> is 1 once its send has been received, \<open>inCritical\<close> holds between
  \<open>mu.Lock()\<close> and \<open>mu.Unlock()\<close>, \<open>appended\<close> is 1 once it is past line 67.
\<close>

fun counted :: "wpc \<Rightarrow> nat" where
  "counted AtUnlock = 1"
| "counted AtSend = 1"
| "counted Finished = 1"
| "counted pc = 0"

fun handedOver :: "wpc \<Rightarrow> nat" where
  "handedOver Finished = 1"
| "handedOver pc = 0"

fun inCritical :: "wpc \<Rightarrow> bool" where
  "inCritical AtIncr = True"
| "inCritical AtUnlock = True"
| "inCritical pc = False"

text \<open>
  What the counter and the counts received keep along a run: the counter is the number
  of goroutines past the increment, one count has been received per finished goroutine,
  the counts received are in order and between 1 and the counter, the last of them is
  at least their number, and the mutex is held by the goroutine between lock and unlock.
\<close>

definition counterInv :: "shared \<Rightarrow> bool" where
  "counterInv s =
     (progress s = sum_list (map counted (workers s)) \<and>
      length (received s) = sum_list (map handedOver (workers s)) \<and>
      sorted (received s) \<and>
      list_all (\<lambda>v. 1 \<le> v \<and> v \<le> progress s) (received s) \<and>
      (received s = [] \<or> length (received s) \<le> last (received s)) \<and>
      (\<forall>i < length (workers s). inCritical (workers s ! i) = (muHolder s = Some i)))"

text \<open>
  For the list of matched candidates: \<open>heldOk\<close> says what a goroutine standing in
  line 67 holds (its candidate matched, and the slice value it read is made of matched
  candidates and is no longer than \<open>w\<close>, the number of goroutines past line 67).
\<close>

fun appended :: "wpc \<Rightarrow> nat" where
  "appended AtCheck = 0"
| "appended AtAppendRead = 0"
| "appended (AtAppendWrite old) = 0"
| "appended pc = 1"

fun heldOk :: "(string \<Rightarrow> bool) \<Rightarrow> string list \<Rightarrow> nat \<Rightarrow> string \<Rightarrow> wpc \<Rightarrow> bool" where
  "heldOk chk subs w c AtAppendRead = chk c"
| "heldOk chk subs w c (AtAppendWrite old) =
     (chk c \<and> set old \<subseteq> {x \<in> set subs. chk x} \<and> length old \<le> w)"
| "heldOk chk subs w c pc = True"

definition listInv :: "(string \<Rightarrow> bool) \<Rightarrow> string list \<Rightarrow> shared \<Rightarrow> bool" where
  "listInv chk subs s =
     (length (workers s) = length subs \<and>
      set (validSubdomains s) \<subseteq> {x \<in> set subs. chk x} \<and>
      length (validSubdomains s) \<le> sum_list (map appended (workers s)) \<and>
      (\<forall>i < length subs.
         heldOk chk subs (sum_list (map appended (workers s))) (subs ! i) (workers s ! i)))"



section \<open>Concrete servers and pages\<close>

text \<open>
  Small inputs on which the theorems below are run. All the pages are ASCII text, on
  which \<open>ToLower\<close> does not call \<open>Map\<close>: the examples are run with \<open>noMap\<close>, which
  says nothing about it.
\<close>

definition noMap :: "string \<Rightarrow> string" where
  "noMap = undefined"

definition portalPage :: string where
  "portalPage = ''<form>login''"

definition twoPortals :: server where
  "twoPortals url =
     (if url = ''http://a.test/login'' \<or> url = ''http://b.test/login''
      then Response 200 [] (Body portalPage) else GetFailed)"

definition twoPortals2 :: server where
  "twoPortals2 url =
     (if url = ''http://a.test/signup'' \<or> url = ''http://b.test/signup''
      then Response 200 [] (Body ''<form>register'') else GetFailed)"

definition unreachable :: server where
  "unreachable url = GetFailed"

definition created201 :: server where
  "created201 url = Response 201 [] (Body portalPage)"

definition answers :: "int \<Rightarrow> string \<Rightarrow> server" where
  "answers code loc url = Response code loc (Body portalPage)"

definition anchorPage :: string where
  "anchorPage = ''<form><a href='' @ [CHR 0x22] @ ''/login'' @ [CHR 0x22] @ ''>Go</a>''"

definition onlyRegister :: server where
  "onlyRegister url =
     (if url = ''http://h.test/register'' then Response 200 [] (Body anchorPage) else GetFailed)"

definition oversizedPage :: string where
  "oversizedPage = portalPage @ replicate 9990 (CHR ''x'')"

definition oversized :: server where
  "oversized url = Response 200 [] (Body oversizedPage)"

section \<open>Facts about the string helpers\<close>

lemma natDigits_lt10: "n < 10 \<Longrightarrow> natDigits n = [digitChar n]"
  by (simp add: natDigits.simps)

lemma natDigits_lt100:
  "10 \<le> n \<Longrightarrow> n < 100 \<Longrightarrow> natDigits n = [digitChar (n div 10), digitChar (n mod 10)]"
  by (subst natDigits.simps) (simp add: natDigits_lt10)

lemma natDigits_lt1000:
  "100 \<le> n \<Longrightarrow> n < 1000 \<Longrightarrow>
   natDigits n = [digitChar (n div 10 div 10), digitChar (n div 10 mod 10), digitChar (n mod 10)]"
  by (subst natDigits.simps) (simp add: natDigits_lt100)

lemma digitChar_three: "d < 10 \<Longrightarrow> CHR ''3'' = digitChar d \<longleftrightarrow> d = 3"
proof
  assume d: "d < 10" and eq: "CHR ''3'' = digitChar d"
  have "(of_char (digitChar d) :: nat) = (48 + d) mod 256"
    by (simp add: digitChar_def)
  moreover have "(of_char (CHR ''3'') :: nat) = 51" by simp
  ultimately have "(48 + d) mod 256 = 51" using eq by simp
  with d show "d = 3" by simp
next
  assume "d = 3"
  moreover have "CHR ''3'' = char_of (51 :: nat)" by code_simp
  ultimately show "CHR ''3'' = digitChar d" by (simp add: digitChar_def)
qed

text \<open>Which numbers below 1000 are printed with a leading \<open>3\<close>.\<close>

lemma leading_three:
  assumes "n < 1000"
  shows "HasPrefix (natDigits n) ''3'' \<longleftrightarrow>
         n = 3 \<or> (30 \<le> n \<and> n \<le> 39) \<or> (300 \<le> n \<and> n \<le> 399)"
proof -
  consider "n < 10" | "10 \<le> n" "n < 100" | "100 \<le> n" "n < 1000"
    using assms by linarith
  then show ?thesis
  proof cases
    case 1
    then show ?thesis by (simp add: HasPrefix_def natDigits_lt10 digitChar_three)
  next
    case 2
    then have "n div 10 < 10" by simp
    with 2 show ?thesis
      by (simp add: HasPrefix_def natDigits_lt100 digitChar_three) arith
  next
    case 3
    then have "n div 10 div 10 < 10" by simp
    with 3 show ?thesis
      by (simp add: HasPrefix_def natDigits_lt1000 digitChar_three) arith
  qed
qed

lemma statusSkipped_range:
  assumes "0 \<le> code" "code \<le> 999"
  shows "statusSkipped code \<longleftrightarrow>
         \<not> (code = 200 \<or> code = 3 \<or> (30 \<le> code \<and> code \<le> 39) \<or> (300 \<le> code \<and> code \<le> 399))"
proof -
  have "nat code < 1000" using assms by simp
  from leading_three [OF this] assms show ?thesis
    by (simp add: statusSkipped_def Sprint_def) arith
qed

lemma ToLower_ascii: "list_all isASCII s \<Longrightarrow> ToLower uni s = map lowerByte s"
  by (simp add: ToLower_def)

lemma sublist_ascii: "sublist x y \<Longrightarrow> list_all isASCII y \<Longrightarrow> list_all isASCII x"
  using set_mono_sublist [of x y] by (auto simp: list_all_iff)

text \<open>On ASCII text a keyword found in a piece of the text is found in the text.\<close>

lemma Contains_ToLower_mono:
  assumes "sublist x y" "list_all isASCII y" "Contains (ToLower uni x) k"
  shows "Contains (ToLower uni y) k"
proof -
  from assms(1,2) have x: "list_all isASCII x" by (rule sublist_ascii)
  from assms(1) have "sublist (map lowerByte x) (map lowerByte y)"
    by (rule map_mono_sublist)
  with assms(2) x have "sublist (ToLower uni x) (ToLower uni y)"
    by (simp add: ToLower_ascii)
  with assms(3) show ?thesis
    unfolding Contains_def by (rule sublist_order.order.trans)
qed

lemma firstKeyword_hit:
  "firstKeyword uni ks x \<noteq> [] \<Longrightarrow> \<exists>k \<in> set ks. k \<noteq> [] \<and> Contains (ToLower uni x) k"
  by (induction ks) (auto split: if_splits)

lemma firstKeyword_found:
  "k \<in> set ks \<Longrightarrow> Contains (ToLower uni y) k \<Longrightarrow> [] \<notin> set ks \<Longrightarrow>
   firstKeyword uni ks y \<noteq> []"
  by (induction ks) auto

lemma firstKeyword_mono:
  assumes "[] \<notin> set ks" "sublist x y" "list_all isASCII y" "firstKeyword uni ks x \<noteq> []"
  shows "firstKeyword uni ks y \<noteq> []"
proof -
  from firstKeyword_hit [OF assms(4)] obtain k where
    k: "k \<in> set ks" "Contains (ToLower uni x) k" by blast
  from Contains_ToLower_mono [OF assms(2,3) k(2)] k(1) assms(1)
  show ?thesis by (simp add: firstKeyword_found)
qed

lemma findMatchingKeyword_mono:
  "sublist x y \<Longrightarrow> list_all isASCII y \<Longrightarrow> findMatchingKeyword uni x \<noteq> [] \<Longrightarrow>
   findMatchingKeyword uni y \<noteq> []"
  unfolding findMatchingKeyword_def
  by (rule firstKeyword_mono) (simp_all add: createAccountKeywords_def)

lemma anyLink_iff:
  "anyLink uni ls body \<longleftrightarrow> (\<exists>l \<in> set ls. Contains (ToLower uni body) l)"
  by (induction ls) auto

section \<open>Facts about the pattern matcher\<close>

lemma matchHere_lits:
  "matchHere (lits l @ r) s pos cp =
     (if prefix l s then matchHere r (drop (length l) s) (pos + length l) cp else None)"
proof (induction l arbitrary: s pos)
  case Nil
  show ?case by (simp add: lits_def)
next
  case (Cons c l)
  show ?case
  proof (cases s)
    case Nil
    then show ?thesis by (simp add: lits_def)
  next
    case (Cons x xs)
    with Cons.IH [of xs "Suc pos"] show ?thesis by (simp add: lits_def)
  qed
qed

text \<open>\<open>[^c]*c\<close> matches at the head of \<open>s\<close> exactly when \<open>c\<close> occurs in \<open>s\<close>.\<close>

lemma matchHere_upto:
  "matchHere [Star (NotCh c), Lit c] s pos cp = None \<longleftrightarrow> c \<notin> set s"
proof (induction s arbitrary: pos)
  case Nil
  show ?case by simp
next
  case (Cons x xs)
  show ?case
  proof (cases "x = c")
    case True
    then show ?thesis by simp
  next
    case False
    with Cons.IH [of "Suc pos"] show ?thesis
      by (cases "matchHere [Star (NotCh c), Lit c] xs (Suc pos) cp") simp_all
  qed
qed

lemma matchAlts_single:
  "matchAlts [a] s pos = None \<longleftrightarrow> matchHere a s pos Map.empty = None"
  by (simp split: option.splits)

lemma matchAlts_form:
  "matchAlts formPattern s pos = None \<longleftrightarrow>
     \<not> (prefix ''<form'' s \<and> CHR ''>'' \<in> set (drop 5 s))"
proof -
  have "matchHere (lits ''<form'' @ [Star (NotCh CHR ''>''), Lit CHR ''>'']) s pos Map.empty = None
        \<longleftrightarrow> \<not> (prefix ''<form'' s \<and> CHR ''>'' \<in> set (drop (length ''<form'') s))"
    by (simp only: matchHere_lits matchHere_upto split: if_splits) simp
  moreover have "length ''<form'' = 5" by simp
  ultimately show ?thesis
    unfolding formPattern_def by (simp only: matchAlts_single)
qed

lemma MatchString_Cons:
  "MatchString re (x # xs) \<longleftrightarrow> matchAlts re (x # xs) 0 \<noteq> None \<or> MatchString re xs"
  by (cases "matchAlts re (x # xs) 0") simp_all

lemma MatchString_Nil: "MatchString re [] \<longleftrightarrow> matchAlts re [] 0 \<noteq> None"
  by (cases "matchAlts re [] 0") simp_all

lemma containsForm_iff:
  "containsForm body \<longleftrightarrow> (\<exists>pre post. body = pre @ ''<form'' @ post \<and> CHR ''>'' \<in> set post)"
  unfolding containsForm_def
proof (induction body)
  case Nil
  show ?case by (simp only: MatchString_Nil matchAlts_form) simp
next
  case (Cons x xs)
  have here: "(prefix ''<form'' (x # xs) \<and> CHR ''>'' \<in> set (drop 5 (x # xs))) \<longleftrightarrow>
        (\<exists>post. x # xs = ''<form'' @ post \<and> CHR ''>'' \<in> set post)"
    by (auto simp: prefix_def)
  have "(\<exists>pre post. x # xs = pre @ ''<form'' @ post \<and> CHR ''>'' \<in> set post) \<longleftrightarrow>
        (\<exists>post. x # xs = ''<form'' @ post \<and> CHR ''>'' \<in> set post) \<or>
        (\<exists>pre post. xs = pre @ ''<form'' @ post \<and> CHR ''>'' \<in> set post)"
    (is "?L \<longleftrightarrow> ?A \<or> ?B")
  proof
    assume ?L
    then obtain pre post where e: "x # xs = pre @ ''<form'' @ post" and g: "CHR ''>'' \<in> set post"
      by blast
    show "?A \<or> ?B"
    proof (cases pre)
      case Nil
      with e g show ?thesis by auto
    next
      case (Cons y ys)
      with e have "xs = ys @ ''<form'' @ post" by simp
      with g show ?thesis by blast
    qed
  next
    assume "?A \<or> ?B"
    then show ?L
    proof
      assume ?A
      then obtain post where "x # xs = [] @ ''<form'' @ post" "CHR ''>'' \<in> set post" by auto
      then show ?L by blast
    next
      assume ?B
      then obtain pre post where "xs = pre @ ''<form'' @ post" "CHR ''>'' \<in> set post" by blast
      then have "x # xs = (x # pre) @ ''<form'' @ post" by simp
      with \<open>CHR ''>'' \<in> set post\<close> show ?L by blast
    qed
  qed
  with Cons.IH here show ?case by (simp only: MatchString_Cons matchAlts_form) simp
qed

lemma containsForm2_iff:
  "containsForm2 body \<longleftrightarrow> (\<exists>pre post. body = pre @ ''<form'' @ post)"
  by (simp add: containsForm2_def Contains_def sublist_def)

text \<open>Every text a match hands out is a piece of the subject.\<close>

lemma slice_sublist: "sublist (slice s a b) s"
proof -
  have "sublist (take (b - a) (drop a s)) (drop a s)" by simp
  moreover have "sublist (drop a s) s" by simp
  ultimately show ?thesis unfolding slice_def by (rule sublist_order.order.trans)
qed

lemma groupText_sublist: "sublist (groupText s cp n) s"
  by (simp add: groupText_def slice_sublist split: option.splits)

lemma submatch_entries:
  assumes "m \<in> set (FindAllStringSubmatch re 3 s)"
  shows "length m = 4 \<and> (\<forall>g < 4. sublist (m ! g) s)"
proof -
  from assms obtain b e cp where
    m: "m = slice s b e # map (groupText s cp) [1 ..< 4]"
    by (auto simp: FindAllStringSubmatch_def)
  have "[1 ..< 4] = [1, 2, 3 :: nat]" by (simp add: upt_rec)
  with m have m': "m = [slice s b e, groupText s cp 1, groupText s cp 2, groupText s cp 3]"
    by simp
  have "sublist (m ! g) s" if "g < 4" for g
  proof -
    from that consider "g = 0" | "g = 1" | "g = 2" | "g = 3" by linarith
    then show ?thesis
      by cases (simp_all add: m' slice_sublist groupText_sublist)
  qed
  with m' show ?thesis by simp
qed

lemma linkLoop_iff:
  "linkLoop uni ms \<longleftrightarrow>
     (\<exists>m \<in> set ms. (1 < length m \<and> findMatchingKeyword uni (m ! 1) \<noteq> []) \<or>
                    (2 < length m \<and> findMatchingKeyword uni (m ! 2) \<noteq> []))"
  by (induction ms) auto

section \<open>Facts about the path loop\<close>

lemma asked_simps [simp]:
  "found (asked u r) = found r"
  "detectionMethod (asked u r) = detectionMethod r"
  "matchedKeyword (asked u r) = matchedKeyword r"
  "redirectURL (asked u r) = redirectURL r"
  "requested (asked u r) = u # requested r"
  by (simp_all add: asked_def)

lemma methods_differ: "KeywordWithForm \<noteq> LinkWithForm"
  by (simp add: KeywordWithForm_def LinkWithForm_def)

text \<open>An iteration that does not end in a \<open>break\<close> goes on with the rest of the list.\<close>

lemma pathLoop_miss:
  assumes "\<not> pathMatches cl srv sub path"
  shows "\<exists>redir' kw'. pathLoop cl srv sub (path # rest) redir kw =
           asked (sub @ ''/'' @ path) (pathLoop cl srv sub rest redir' kw')"
proof (cases "srv (sub @ ''/'' @ path)")
  case GetFailed
  then show ?thesis by auto
next
  case (Response code loc rd)
  show ?thesis
  proof (cases rd)
    case ReadFailed
    with Response show ?thesis by (auto simp: Let_def)
  next
    case (Body body)
    with Response assms show ?thesis
      by (auto simp: Let_def pathMatches_def)
  qed
qed

lemma pathLoop_hit:
  assumes "pathMatches cl srv sub path"
  shows "found (pathLoop cl srv sub (path # rest) redir kw) \<and>
         requested (pathLoop cl srv sub (path # rest) redir kw) = [sub @ ''/'' @ path]"
  using assms
  by (auto simp: Let_def pathMatches_def split: probe.splits bodyRead.splits)

lemma pathLoop_misses:
  assumes "\<forall>p \<in> set pre. \<not> pathMatches cl srv sub p"
  shows "\<exists>redir' kw'.
           found (pathLoop cl srv sub (pre @ ps) redir kw) = found (pathLoop cl srv sub ps redir' kw') \<and>
           detectionMethod (pathLoop cl srv sub (pre @ ps) redir kw) =
             detectionMethod (pathLoop cl srv sub ps redir' kw') \<and>
           requested (pathLoop cl srv sub (pre @ ps) redir kw) =
             map (\<lambda>p. sub @ ''/'' @ p) pre @ requested (pathLoop cl srv sub ps redir' kw')"
  using assms
proof (induction pre arbitrary: redir kw)
  case Nil
  show ?case by (simp, blast)
next
  case (Cons p pre)
  from Cons.prems have "\<not> pathMatches cl srv sub p" by simp
  from pathLoop_miss [OF this] obtain r1 k1 where
    eq: "pathLoop cl srv sub (p # (pre @ ps)) redir kw =
         asked (sub @ ''/'' @ p) (pathLoop cl srv sub (pre @ ps) r1 k1)"
    by blast
  from Cons.prems have "\<forall>q \<in> set pre. \<not> pathMatches cl srv sub q" by simp
  from Cons.IH [OF this, of r1 k1] obtain r2 k2 where
    "found (pathLoop cl srv sub (pre @ ps) r1 k1) = found (pathLoop cl srv sub ps r2 k2)"
    "detectionMethod (pathLoop cl srv sub (pre @ ps) r1 k1) =
       detectionMethod (pathLoop cl srv sub ps r2 k2)"
    "requested (pathLoop cl srv sub (pre @ ps) r1 k1) =
       map (\<lambda>p. sub @ ''/'' @ p) pre @ requested (pathLoop cl srv sub ps r2 k2)"
    by blast
  with eq show ?case by (simp, blast)
qed

lemma first_match_index:
  assumes "i < length ps" "P (ps ! i)"
  shows "\<exists>m \<le> i. P (ps ! m) \<and> (\<forall>j < m. \<not> P (ps ! j))"
proof -
  define m where "m = (LEAST k. P (ps ! k))"
  have "P (ps ! m)" unfolding m_def using assms(2) by (rule LeastI)
  moreover have "m \<le> i" unfolding m_def using assms(2) by (rule Least_le)
  moreover have "\<forall>j < m. \<not> P (ps ! j)" unfolding m_def using not_less_Least by blast
  ultimately show ?thesis by blast
qed

lemma pathLoop_stops_at:
  assumes "m < length ps" "pathMatches cl srv sub (ps ! m)"
    "\<forall>j < m. \<not> pathMatches cl srv sub (ps ! j)"
  shows "found (pathLoop cl srv sub ps redir kw) \<and>
         requested (pathLoop cl srv sub ps redir kw) = map (\<lambda>p. sub @ ''/'' @ p) (take (Suc m) ps)"
proof -
  have split: "ps = take m ps @ ps ! m # drop (Suc m) ps"
    using assms(1) by (rule id_take_nth_drop)
  have "\<forall>p \<in> set (take m ps). \<not> pathMatches cl srv sub p"
    using assms(1,3) by (auto simp: in_set_conv_nth)
  from pathLoop_misses [OF this, of "ps ! m # drop (Suc m) ps" redir kw] split
  obtain r k where
    f: "found (pathLoop cl srv sub ps redir kw) =
        found (pathLoop cl srv sub (ps ! m # drop (Suc m) ps) r k)" and
    q: "requested (pathLoop cl srv sub ps redir kw) =
        map (\<lambda>p. sub @ ''/'' @ p) (take m ps) @
        requested (pathLoop cl srv sub (ps ! m # drop (Suc m) ps) r k)"
    by auto
  from pathLoop_hit [OF assms(2), of "drop (Suc m) ps" r k] f q assms(1)
  show ?thesis by (simp add: take_Suc_conv_app_nth)
qed

lemma pathLoop_all_failed:
  "\<forall>p \<in> set ps. srv (sub @ ''/'' @ p) = GetFailed \<Longrightarrow>
   \<not> found (pathLoop cl srv sub ps redir kw) \<and>
   requested (pathLoop cl srv sub ps redir kw) = map (\<lambda>p. sub @ ''/'' @ p) ps"
  by (induction ps) simp_all

text \<open>Whatever the answers, the requests made are an initial part of the path list.\<close>

lemma requested_prefix:
  "prefix (requested (pathLoop cl srv sub ps redir kw)) (map (\<lambda>p. sub @ ''/'' @ p) ps)"
proof (induction ps arbitrary: redir kw)
  case Nil
  show ?case by simp
next
  case (Cons p ps)
  show ?case
  proof (cases "pathMatches cl srv sub p")
    case True
    from pathLoop_hit [OF this, of ps redir kw] show ?thesis by simp
  next
    case False
    from pathLoop_miss [OF this, of ps redir kw] obtain r k where
      "pathLoop cl srv sub (p # ps) redir kw =
         asked (sub @ ''/'' @ p) (pathLoop cl srv sub ps r k)" by blast
    with Cons.IH [of r k] show ?thesis by simp
  qed
qed

text \<open>
  A verdict reached through the link rule carries no keyword: the keyword rule was
  tried first on the same body and did not fire.
\<close>

lemma link_verdict_no_keyword:
  "detectionMethod (pathLoop cl srv sub ps redir kw) = LinkWithForm \<Longrightarrow>
   matchedKeyword (pathLoop cl srv sub ps redir kw) = []"
proof (induction ps arbitrary: redir kw)
  case Nil
  then show ?case by (simp add: LinkWithForm_def)
next
  case (Cons p ps)
  then show ?case
    using methods_differ
    by (auto simp: Let_def split: probe.splits bodyRead.splits if_splits)
qed

section \<open>What every run of the goroutines keeps\<close>

lemma sum_list_map_update:
  "i < length xs \<Longrightarrow>
   sum_list (map f (xs[i := y])) + f (xs ! i) = sum_list (map f xs) + (f y :: nat)"
proof (induction xs arbitrary: i)
  case Nil
  then show ?case by simp
next
  case (Cons x xs)
  then show ?case by (cases i) simp_all
qed

lemma step_length:
  "step prog chk subs i s = Some s' \<Longrightarrow> length (workers s') = length (workers s)"
  by (cases prog; cases "workers s ! i")
     (auto simp: step_def split: if_splits option.splits)

lemma step_effect:
  assumes "step prog chk subs i s = Some s'"
  obtains pc s1 where "i < length (workers s)"
    "workerStep prog chk (subs ! i) i (workers s ! i) s = Some (pc, s1)"
    "workers s1 = workers s" "s' = s1 \<lparr> workers := (workers s) [i := pc] \<rparr>"
proof -
  from assms have i: "i < length (workers s)"
    by (simp add: step_def split: if_splits)
  from assms i obtain pc s1 where
    w: "workerStep prog chk (subs ! i) i (workers s ! i) s = Some (pc, s1)"
    by (auto simp: step_def split: if_splits option.splits)
  from w have same: "workers s1 = workers s"
    by (cases prog; cases "workers s ! i") (auto split: if_splits)
  from assms i w same have "s' = s1 \<lparr> workers := (workers s) [i := pc] \<rparr>"
    by (simp add: step_def split: if_splits)
  with i w same show ?thesis by (rule that)
qed

lemma step_counted:
  assumes "progress s = sum_list (map counted (workers s))" "step prog chk subs i s = Some s'"
  shows "progress s' = sum_list (map counted (workers s')) \<and> progress s \<le> progress s'"
proof -
  from assms(2) obtain pc s1 where e: "i < length (workers s)"
    "workerStep prog chk (subs ! i) i (workers s ! i) s = Some (pc, s1)"
    "workers s1 = workers s" "s' = s1 \<lparr> workers := (workers s) [i := pc] \<rparr>"
    by (rule step_effect)
  from sum_list_map_update [OF e(1), of counted pc]
  have u: "sum_list (map counted ((workers s)[i := pc])) + counted (workers s ! i) =
        sum_list (map counted (workers s)) + counted pc" .
  from e(2) have "progress s1 + counted (workers s ! i) = progress s + counted pc"
    by (cases prog; cases "workers s ! i") (auto split: if_splits)
  with u assms(1) e(4) have "progress s' = sum_list (map counted (workers s'))" by simp
  moreover from e(2,4) have "progress s \<le> progress s'"
    by (cases prog; cases "workers s ! i") (auto split: if_splits)
  ultimately show ?thesis by simp
qed

lemma step_handedOver:
  assumes "length (received s) = sum_list (map handedOver (workers s))"
    "step prog chk subs i s = Some s'"
  shows "length (received s') = sum_list (map handedOver (workers s'))"
proof -
  from assms(2) obtain pc s1 where e: "i < length (workers s)"
    "workerStep prog chk (subs ! i) i (workers s ! i) s = Some (pc, s1)"
    "workers s1 = workers s" "s' = s1 \<lparr> workers := (workers s) [i := pc] \<rparr>"
    by (rule step_effect)
  from sum_list_map_update [OF e(1), of handedOver pc]
  have u: "sum_list (map handedOver ((workers s)[i := pc])) + handedOver (workers s ! i) =
        sum_list (map handedOver (workers s)) + handedOver pc" .
  from e(2) have "length (received s1) + handedOver (workers s ! i) =
      length (received s) + handedOver pc"
    by (cases prog; cases "workers s ! i") (auto split: if_splits)
  with u assms(1) e(4) show ?thesis by simp
qed

lemma counted_ge_handedOver: "sum_list (map handedOver ws) \<le> sum_list (map counted ws)"
proof (induction ws)
  case Nil
  show ?case by simp
next
  case (Cons pc ws)
  then show ?case by (cases pc) simp_all
qed

text \<open>
  The step that matters: at a hand-over the count received is the counter, which is at
  least every count received before and at least the number of finished goroutines.
\<close>

lemma step_received:
  assumes "progress s = sum_list (map counted (workers s))"
    "length (received s) = sum_list (map handedOver (workers s))"
    "sorted (received s)"
    "list_all (\<lambda>v. 1 \<le> v \<and> v \<le> progress s) (received s)"
    "received s = [] \<or> length (received s) \<le> last (received s)"
    "step prog chk subs i s = Some s'"
  shows "sorted (received s') \<and>
         list_all (\<lambda>v. 1 \<le> v \<and> v \<le> progress s') (received s') \<and>
         (received s' = [] \<or> length (received s') \<le> last (received s'))"
proof -
  from assms(6) obtain pc s1 where e: "i < length (workers s)"
    "workerStep prog chk (subs ! i) i (workers s ! i) s = Some (pc, s1)"
    "workers s1 = workers s" "s' = s1 \<lparr> workers := (workers s) [i := pc] \<rparr>"
    by (rule step_effect)
  show ?thesis
  proof (cases "workers s ! i = AtSend")
    case True
    with e(2) have r: "received s1 = received s @ [progress s]" "progress s1 = progress s"
      "pc = Finished" by auto
    from sum_list_map_update [OF e(1), of handedOver Finished] True
    have "sum_list (map handedOver ((workers s)[i := Finished])) =
          sum_list (map handedOver (workers s)) + 1" by simp
    moreover from sum_list_map_update [OF e(1), of counted Finished] True
    have "sum_list (map counted ((workers s)[i := Finished])) =
          sum_list (map counted (workers s))" by simp
    moreover note counted_ge_handedOver [of "(workers s)[i := Finished]"]
    ultimately have many: "length (received s) + 1 \<le> progress s"
      using assms(1,2) by simp
    from assms(3,4) have "sorted (received s @ [progress s])"
      by (auto simp: sorted_append list_all_iff)
    moreover from assms(4) many
    have "list_all (\<lambda>v. 1 \<le> v \<and> v \<le> progress s) (received s @ [progress s])"
      by simp
    ultimately show ?thesis using r many e(4) by simp
  next
    case False
    with e(2) have same: "received s1 = received s"
      by (cases prog; cases "workers s ! i") (auto split: if_splits)
    from e(2) have le: "progress s \<le> progress s1"
      by (cases prog; cases "workers s ! i") (auto split: if_splits)
    from assms(4) le have "list_all (\<lambda>v. 1 \<le> v \<and> v \<le> progress s1) (received s)"
      by (auto simp: list_all_iff)
    with same assms(3,5) e(4) show ?thesis by simp
  qed
qed

lemma step_mutex:
  assumes "\<forall>j < length (workers s). inCritical (workers s ! j) = (muHolder s = Some j)"
    "step prog chk subs i s = Some s'"
  shows "\<forall>j < length (workers s'). inCritical (workers s' ! j) = (muHolder s' = Some j)"
proof -
  from assms(2) obtain pc s1 where e: "i < length (workers s)"
    "workerStep prog chk (subs ! i) i (workers s ! i) s = Some (pc, s1)"
    "workers s1 = workers s" "s' = s1 \<lparr> workers := (workers s) [i := pc] \<rparr>"
    by (rule step_effect)
  from assms(1) e(1) have mine: "inCritical (workers s ! i) = (muHolder s = Some i)" by simp
  from e(2) mine have new: "inCritical pc = (muHolder s1 = Some i)"
    by (cases prog; cases "workers s ! i") (auto split: if_splits)
  have other: "inCritical (workers s ! j) = (muHolder s1 = Some j)"
    if "j < length (workers s)" "j \<noteq> i" for j
  proof -
    from assms(1) that have "inCritical (workers s ! j) = (muHolder s = Some j)" by simp
    with e(2) mine that(2) show ?thesis
      by (cases prog; cases "workers s ! i") (auto split: if_splits)
  qed
  show ?thesis
  proof (intro allI impI)
    fix j assume "j < length (workers s')"
    with e(4) have j: "j < length (workers s)" by simp
    show "inCritical (workers s' ! j) = (muHolder s' = Some j)"
    proof (cases "j = i")
      case True
      with new e(1,4) show ?thesis by simp
    next
      case False
      with other [OF j] e(4) show ?thesis by simp
    qed
  qed
qed

lemma step_counterInv:
  assumes "counterInv s" "step prog chk subs i s = Some s'"
  shows "counterInv s'"
  using assms step_counted [of s prog chk subs i s'] step_handedOver [of s prog chk subs i s']
    step_received [of s prog chk subs i s'] step_mutex [of s prog chk subs i s']
  unfolding counterInv_def by blast

lemma exec_counterInv:
  "counterInv s \<Longrightarrow> exec prog chk subs sched s = Some s' \<Longrightarrow>
   counterInv s' \<and> length (workers s') = length (workers s)"
proof (induction sched arbitrary: s)
  case Nil
  then show ?case by simp
next
  case (Cons i sched)
  from Cons.prems(2) obtain s1 where
    s1: "step prog chk subs i s = Some s1" "exec prog chk subs sched s1 = Some s'"
    by (auto split: option.splits)
  from step_counterInv [OF Cons.prems(1) s1(1)] Cons.IH [of s1] s1(2) step_length [OF s1(1)]
  show ?case by simp
qed

lemma initial_counterInv: "counterInv (initial subs)"
  by (simp add: counterInv_def initial_def)





text \<open>Mutual exclusion: at most one goroutine is between \<open>mu.Lock()\<close> and \<open>mu.Unlock()\<close>.\<close>

lemma increment_is_guarded:
  assumes "exec prog chk subs sched (initial subs) = Some s"
    "i < length (workers s)" "j < length (workers s)"
    "inCritical (workers s ! i)" "inCritical (workers s ! j)"
  shows "i = j \<and> muHolder s = Some i"
proof -
  from exec_counterInv [OF initial_counterInv assms(1)] have "counterInv s" by simp
  with assms(2-5) show ?thesis by (auto simp: counterInv_def)
qed

lemma appended_le_length: "sum_list (map appended ws) \<le> length ws"
proof (induction ws)
  case Nil
  show ?case by simp
next
  case (Cons pc ws)
  then show ?case by (cases pc) simp_all
qed

lemma heldOk_mono: "heldOk chk subs w c pc \<Longrightarrow> w \<le> w' \<Longrightarrow> heldOk chk subs w' c pc"
  by (cases pc) simp_all

lemma step_listInv:
  assumes "listInv chk subs s" "step prog chk subs i s = Some s'"
  shows "listInv chk subs s'"
proof -
  let ?M = "{x \<in> set subs. chk x}"
  let ?w = "sum_list (map appended (workers s))"
  let ?w' = "sum_list (map appended (workers s'))"
  from assms(2) obtain pc s1 where e: "i < length (workers s)"
    "workerStep prog chk (subs ! i) i (workers s ! i) s = Some (pc, s1)"
    "workers s1 = workers s" "s' = s1 \<lparr> workers := (workers s) [i := pc] \<rparr>"
    by (rule step_effect)
  from assms(1) have inv: "length (workers s) = length subs"
    "set (validSubdomains s) \<subseteq> ?M" "length (validSubdomains s) \<le> ?w"
    "\<forall>j < length subs. heldOk chk subs ?w (subs ! j) (workers s ! j)"
    by (simp_all add: listInv_def)
  from e(1) inv(1) have i: "i < length subs" by simp
  then have mem: "subs ! i \<in> set subs" by simp
  from inv(4) i have mine: "heldOk chk subs ?w (subs ! i) (workers s ! i)" by simp
  from sum_list_map_update [OF e(1), of appended pc] e(4)
  have u: "?w' + appended (workers s ! i) = ?w + appended pc" by simp
  from e(2) have grow: "appended (workers s ! i) \<le> appended pc"
    by (cases prog; cases "workers s ! i") (auto split: if_splits)
  with u have le: "?w \<le> ?w'" by simp
  from e(2) mine mem inv(2) have sub: "set (validSubdomains s1) \<subseteq> ?M"
    by (cases prog; cases "workers s ! i") (auto split: if_splits)
  from e(2) mine inv(3) u have len: "length (validSubdomains s1) \<le> ?w'"
    by (cases prog; cases "workers s ! i") (auto split: if_splits)
  from e(2) mine inv(2,3) le have new: "heldOk chk subs ?w' (subs ! i) pc"
    by (cases prog; cases "workers s ! i") (auto split: if_splits)
  have "\<forall>j < length subs. heldOk chk subs ?w' (subs ! j) (workers s' ! j)"
  proof (intro allI impI)
    fix j assume j: "j < length subs"
    show "heldOk chk subs ?w' (subs ! j) (workers s' ! j)"
    proof (cases "j = i")
      case True
      with new e(1,4) show ?thesis by simp
    next
      case False
      from inv(4) j have "heldOk chk subs ?w (subs ! j) (workers s ! j)" by simp
      then have "heldOk chk subs ?w' (subs ! j) (workers s ! j)"
        using le by (rule heldOk_mono)
      with False e(4) show ?thesis by simp
    qed
  qed
  with sub len inv(1) e(4) show ?thesis by (simp add: listInv_def)
qed

lemma exec_listInv:
  "listInv chk subs s \<Longrightarrow> exec prog chk subs sched s = Some s' \<Longrightarrow> listInv chk subs s'"
proof (induction sched arbitrary: s)
  case Nil
  then show ?case by simp
next
  case (Cons i sched)
  from Cons.prems(2) obtain s1 where
    s1: "step prog chk subs i s = Some s1" "exec prog chk subs sched s1 = Some s'"
    by (auto split: option.splits)
  from step_listInv [OF Cons.prems(1) s1(1)] Cons.IH [of s1] s1(2)
  show ?case by simp
qed

lemma initial_listInv: "listInv chk subs (initial subs)"
  by (simp add: listInv_def initial_def)

text \<open>
  What holds of \<open>validSubdomains\<close> when \<open>wg.Wait\<close> returns, along every schedule: its
  elements are matched candidates of the input list and it is no longer than that list.
  (That it holds every matched candidate is what fails, see C1.)
\<close>

lemma outcome_at_return:
  assumes "mainRun prog chk subs sched = Some s"
  shows "set (validSubdomains s) \<subseteq> {x \<in> set subs. chk x} \<and>
         length (validSubdomains s) \<le> length subs"
proof -
  from assms have ex: "exec prog chk subs sched (initial subs) = Some s"
    by (auto simp: mainRun_def split: option.splits if_splits)
  from exec_listInv [OF initial_listInv ex] have inv: "listInv chk subs s" .
  from appended_le_length [of "workers s"] inv show ?thesis by (simp add: listInv_def)
qed






section \<open>The claims\<close>

subsection \<open>Status gate\<close>

text \<open>
  C2, as the code has it. The loop goes on to body reading and classification exactly
  when the status is 200 or its decimal form begins with the digit 3; among the
  statuses an HTTP response can carry (0 to 999) these are 200, 300 to 399 and the
  short forms 3 and 30 to 39. For every other status, 201 and 204 included, the path
  is not a match and the loop goes on with the next path, the loop variables unchanged.
  For a status that passes, the body that was read (up to the ceiling) is classified:
  the iteration ends in a match exactly when the body has a form and a keyword or link
  hit, with the keyword rule tried first, and otherwise the loop goes on with the
  keyword found in this body.
\<close>

theorem status_gate:
  assumes "0 \<le> code" "code \<le> 999"
  shows "(statusSkipped code \<longleftrightarrow>
            \<not> (code = 200 \<or> code = 3 \<or> (30 \<le> code \<and> code \<le> 39) \<or> (300 \<le> code \<and> code \<le> 399))) \<and>
         (statusSkipped code \<longrightarrow> srv (sub @ ''/'' @ path) = Response code loc rd \<longrightarrow>
            \<not> pathMatches cl srv sub path \<and>
            pathLoop cl srv sub (path # rest) redir kw =
              asked (sub @ ''/'' @ path) (pathLoop cl srv sub rest redir kw)) \<and>
         (\<not> statusSkipped code \<longrightarrow> srv (sub @ ''/'' @ path) = Response code loc (Body body) \<longrightarrow>
            length body \<le> 10000 \<longrightarrow>
            (pathMatches cl srv sub path \<longleftrightarrow>
               (keywordOf cl body \<noteq> [] \<or> linksIn cl body) \<and> formIn cl body) \<and>
            pathLoop cl srv sub (path # rest) redir kw =
              (if keywordOf cl body \<noteq> [] \<and> formIn cl body
               then \<lparr> found = True, detectionMethod = KeywordWithForm,
                      matchedKeyword = keywordOf cl body,
                      redirectURL = (if 300 \<le> code \<and> code < 400 then loc else redir),
                      requested = [sub @ ''/'' @ path] \<rparr>
               else if linksIn cl body \<and> formIn cl body
               then \<lparr> found = True, detectionMethod = LinkWithForm,
                      matchedKeyword = keywordOf cl body,
                      redirectURL = (if 300 \<le> code \<and> code < 400 then loc else redir),
                      requested = [sub @ ''/'' @ path] \<rparr>
               else asked (sub @ ''/'' @ path)
                      (pathLoop cl srv sub rest
                         (if 300 \<le> code \<and> code < 400 then loc else redir)
                         (keywordOf cl body))))"
proof (intro conjI impI)
  show "statusSkipped code \<longleftrightarrow>
        \<not> (code = 200 \<or> code = 3 \<or> (30 \<le> code \<and> code \<le> 39) \<or> (300 \<le> code \<and> code \<le> 399))"
    using assms by (rule statusSkipped_range)
next
  assume "statusSkipped code" "srv (sub @ ''/'' @ path) = Response code loc rd"
  then show "\<not> pathMatches cl srv sub path" by (simp add: pathMatches_def)
next
  assume sk: "statusSkipped code" and r: "srv (sub @ ''/'' @ path) = Response code loc rd"
  from sk statusSkipped_range [OF assms] have "\<not> (300 \<le> code \<and> code < 400)"
    by arith
  then have keep: "(if 300 \<le> code \<and> code < 400 then loc else redir) = redir"
    by (rule if_not_P)
  from sk r show "pathLoop cl srv sub (path # rest) redir kw =
      asked (sub @ ''/'' @ path) (pathLoop cl srv sub rest redir kw)"
    by (simp add: Let_def keep del: not_le not_less)
next
  assume "\<not> statusSkipped code" "srv (sub @ ''/'' @ path) = Response code loc (Body body)"
    "length body \<le> 10000"
  then show "pathMatches cl srv sub path \<longleftrightarrow>
      (keywordOf cl body \<noteq> [] \<or> linksIn cl body) \<and> formIn cl body"
    by (auto simp: pathMatches_def)
next
  assume "\<not> statusSkipped code" "srv (sub @ ''/'' @ path) = Response code loc (Body body)"
    "length body \<le> 10000"
  then show "pathLoop cl srv sub (path # rest) redir kw =
      (if keywordOf cl body \<noteq> [] \<and> formIn cl body
       then \<lparr> found = True, detectionMethod = KeywordWithForm,
              matchedKeyword = keywordOf cl body,
              redirectURL = (if 300 \<le> code \<and> code < 400 then loc else redir),
              requested = [sub @ ''/'' @ path] \<rparr>
       else if linksIn cl body \<and> formIn cl body
       then \<lparr> found = True, detectionMethod = LinkWithForm,
              matchedKeyword = keywordOf cl body,
              redirectURL = (if 300 \<le> code \<and> code < 400 then loc else redir),
              requested = [sub @ ''/'' @ path] \<rparr>
       else asked (sub @ ''/'' @ path)
              (pathLoop cl srv sub rest
                 (if 300 \<le> code \<and> code < 400 then loc else redir)
                 (keywordOf cl body)))"
    by (simp add: Let_def del: not_le not_less)
qed

text \<open>
  The status test at three statuses, on a page that holds a form and a keyword: 204 is
  skipped and the page is not looked at; 200 and 302 pass and the page is classified,
  at 302 with the \<open>Location\<close> header kept.
\<close>

theorem status_gate_witness:
  "statusSkipped 204 \<and>
   pathLoop (variant1 noMap) (answers 204 []) ''http://h.test'' [''login''] [] [] =
     \<lparr> found = False, detectionMethod = [], matchedKeyword = [], redirectURL = [],
       requested = [''http://h.test/login''] \<rparr> \<and>
   \<not> statusSkipped 200 \<and>
   pathLoop (variant1 noMap) (answers 200 []) ''http://h.test'' [''login''] [] [] =
     \<lparr> found = True, detectionMethod = KeywordWithForm, matchedKeyword = ''login'',
       redirectURL = [], requested = [''http://h.test/login''] \<rparr> \<and>
   \<not> statusSkipped 302 \<and>
   pathLoop (variant1 noMap) (answers 302 ''/welcome'') ''http://h.test'' [''login''] [] [] =
     \<lparr> found = True, detectionMethod = KeywordWithForm, matchedKeyword = ''login'',
       redirectURL = ''/welcome'', requested = [''http://h.test/login''] \<rparr>"
proof -
  have kw: "keywordOf (variant1 noMap) portalPage = ''login''" by code_simp
  have fm: "formIn (variant1 noMap) portalPage" by code_simp
  have len: "length portalPage \<le> 10000" by (simp add: portalPage_def)
  have a: "answers c l (''http://h.test'' @ ''/'' @ ''login'') = Response c l (Body portalPage)"
    for c l by (simp add: answers_def)
  from status_gate [where code = 204 and srv = "answers 204 []" and sub = "''http://h.test''"
      and path = "''login''" and loc = "[]" and rd = "Body portalPage" and body = portalPage
      and cl = "variant1 noMap" and rest = "[]" and redir = "[]" and kw = "[]"] a [of 204 "[]"]
  have skipped: "statusSkipped 204"
    "pathLoop (variant1 noMap) (answers 204 []) ''http://h.test'' [''login''] [] [] =
       asked ''http://h.test/login''
         (pathLoop (variant1 noMap) (answers 204 []) ''http://h.test'' [] [] [])"
    by simp_all
  from status_gate [where code = 200 and srv = "answers 200 []" and sub = "''http://h.test''"
      and path = "''login''" and loc = "[]" and rd = "Body portalPage" and body = portalPage
      and cl = "variant1 noMap" and rest = "[]" and redir = "[]" and kw = "[]"] a [of 200 "[]"]
    kw fm len
  have ok: "\<not> statusSkipped 200"
    "pathLoop (variant1 noMap) (answers 200 []) ''http://h.test'' [''login''] [] [] =
       \<lparr> found = True, detectionMethod = KeywordWithForm, matchedKeyword = ''login'',
         redirectURL = [], requested = [''http://h.test/login''] \<rparr>"
    by simp_all
  from status_gate [where code = 302 and srv = "answers 302 ''/welcome''"
      and sub = "''http://h.test''" and path = "''login''" and loc = "''/welcome''"
      and rd = "Body portalPage" and body = portalPage
      and cl = "variant1 noMap" and rest = "[]" and redir = "[]" and kw = "[]"]
    a [of 302 "''/welcome''"] kw fm len
  have moved: "\<not> statusSkipped 302"
    "pathLoop (variant1 noMap) (answers 302 ''/welcome'') ''http://h.test'' [''login''] [] [] =
       \<lparr> found = True, detectionMethod = KeywordWithForm, matchedKeyword = ''login'',
         redirectURL = ''/welcome'', requested = [''http://h.test/login''] \<rparr>"
    by simp_all
  from skipped ok moved show ?thesis by (simp add: asked_def)
qed

text \<open>C2, as stated, fails at status 201: a page that would match is not classified.\<close>

theorem status_201_skipped:
  "statusSkipped 201 \<and>
   \<not> found (checkSubdomain (variant1 noMap) created201 ''http://h.test'') \<and>
   keywordOf (variant1 noMap) portalPage = ''login'' \<and> formIn (variant1 noMap) portalPage"
  by code_simp

subsection \<open>Body ceiling\<close>

text \<open>
  C3. A body longer than 10000 bytes makes its path a non-match whatever it contains:
  the iteration goes on with the next path and with \<open>matchedKeyword\<close> as it was, so
  neither the keyword rule nor the link rule is applied to that body.
\<close>

theorem oversized_body_skipped:
  assumes "srv (sub @ ''/'' @ path) = Response code loc (Body body)" "10000 < length body"
  shows "\<not> pathMatches cl srv sub path \<and>
         pathLoop cl srv sub (path # rest) redir kw =
           asked (sub @ ''/'' @ path)
             (pathLoop cl srv sub rest (if 300 \<le> code \<and> code < 400 then loc else redir) kw)"
  using assms by (simp add: pathMatches_def Let_def)

theorem oversized_body_skipped_witness:
  "length oversizedPage = 10001 \<and> sublist ''<form>login'' oversizedPage \<and>
   \<not> pathMatches (variant1 noMap) oversized ''http://h.test'' ''login'' \<and>
   \<not> found (pathLoop (variant1 noMap) oversized ''http://h.test'' [''login''] [] [])"
proof -
  have len: "length oversizedPage = 10001"
    by (simp add: oversizedPage_def portalPage_def)
  have sub: "sublist ''<form>login'' oversizedPage"
    by (simp add: oversizedPage_def portalPage_def)
  have r: "oversized (''http://h.test'' @ ''/'' @ ''login'') = Response 200 [] (Body oversizedPage)"
    by (simp add: oversized_def)
  have big: "10000 < length oversizedPage" using len by simp
  from oversized_body_skipped [where srv = oversized and sub = "''http://h.test''"
      and path = "''login''" and cl = "variant1 noMap" and rest = "[]" and redir = "[]"
      and kw = "[]",
      OF r big] len sub
  show ?thesis by simp
qed

text \<open>The ceiling is exact: the same page cut to 10000 bytes is a match.\<close>

lemma body_at_ceiling_matches:
  "length (portalPage @ replicate 9989 (CHR ''x'')) = 10000 \<and>
   found (pathLoop (variant1 noMap)
            (\<lambda>url. Response 200 [] (Body (portalPage @ replicate 9989 (CHR ''x''))))
            ''http://h.test'' [''login''] [] [])"
proof -
  let ?b = "portalPage @ replicate 9989 (CHR ''x'')"
  have len: "length ?b = 10000" by (simp add: portalPage_def)
  have asc: "list_all isASCII ?b" by (auto simp: list_all_iff portalPage_def isASCII_def)
  have part: "sublist portalPage ?b" by simp
  have "Contains (ToLower noMap portalPage) ''login''" by code_simp
  with part asc have "Contains (ToLower noMap ?b) ''login''"
    by (rule Contains_ToLower_mono)
  then have kw: "findMatchingKeyword noMap ?b = ''login''"
    by (simp add: findMatchingKeyword_def createAccountKeywords_def)
  have "?b = [] @ ''<form'' @ (''>login'' @ replicate 9989 (CHR ''x''))"
    by (simp add: portalPage_def)
  then have form: "containsForm ?b"
    unfolding containsForm_iff by (intro exI conjI, assumption) simp
  have "\<not> statusSkipped 200" by (simp add: statusSkipped_def)
  with len kw form show ?thesis
    by (simp add: Let_def variant1_def)
qed

subsection \<open>Keyword rule before link rule\<close>

text \<open>
  C4. When the loop reaches a path whose accepted body has a keyword hit, a link hit
  and a form, the verdict is reached through the keyword rule: the method is
  \<open>KeywordWithForm\<close> and not \<open>LinkWithForm\<close>.
\<close>

theorem keyword_rule_first:
  assumes "\<forall>p \<in> set pre. \<not> pathMatches cl srv sub p"
    "srv (sub @ ''/'' @ path) = Response code loc (Body body)"
    "\<not> statusSkipped code" "length body \<le> 10000"
    "keywordOf cl body \<noteq> []" "linksIn cl body" "formIn cl body"
  shows "found (pathLoop cl srv sub (pre @ path # rest) redir kw) \<and>
         detectionMethod (pathLoop cl srv sub (pre @ path # rest) redir kw) = KeywordWithForm \<and>
         detectionMethod (pathLoop cl srv sub (pre @ path # rest) redir kw) \<noteq> LinkWithForm"
proof -
  have one: "found (pathLoop cl srv sub (path # rest) r k) \<and>
        detectionMethod (pathLoop cl srv sub (path # rest) r k) = KeywordWithForm" for r k
    using assms(2-7) by (simp add: Let_def)
  from pathLoop_misses [OF assms(1), of "path # rest" redir kw] one
  show ?thesis using methods_differ by auto
qed

theorem keyword_rule_first_witness:
  "keywordOf (variant1 noMap) anchorPage \<noteq> [] \<and> linksIn (variant1 noMap) anchorPage \<and> formIn (variant1 noMap) anchorPage \<and>
   found (checkSubdomain (variant1 noMap) onlyRegister ''http://h.test'') \<and>
   detectionMethod (checkSubdomain (variant1 noMap) onlyRegister ''http://h.test'') = KeywordWithForm"
proof -
  have h1: "\<forall>p \<in> set [''login'']. \<not> pathMatches (variant1 noMap) onlyRegister ''http://h.test'' p"
    by (simp add: pathMatches_def onlyRegister_def)
  have h2: "onlyRegister (''http://h.test'' @ ''/'' @ ''register'') = Response 200 [] (Body anchorPage)"
    by (simp add: onlyRegister_def)
  have h3: "\<not> statusSkipped 200" by (simp add: statusSkipped_def)
  have h4: "length anchorPage \<le> 10000" by (simp add: anchorPage_def)
  have h5: "keywordOf (variant1 noMap) anchorPage \<noteq> []" by code_simp
  have h6: "linksIn (variant1 noMap) anchorPage" by code_simp
  have h7: "formIn (variant1 noMap) anchorPage" by code_simp
  have ps: "paths (variant1 noMap) = [''login''] @ ''register'' # drop 2 createAccountPaths"
    by (simp add: variant1_def createAccountPaths_def)
  from keyword_rule_first [where pre = "[''login'']" and cl = "variant1 noMap" and srv = onlyRegister
      and sub = "''http://h.test''" and path = "''register''"
      and rest = "drop 2 createAccountPaths" and redir = "[]" and kw = "[]",
      OF h1 h2 h3 h4 h5 h6 h7]
    h5 h6 h7 ps
  show ?thesis by (simp add: checkSubdomain_def)
qed

subsection \<open>Short circuit\<close>

text \<open>
  C6. The paths are requested in the order of the configured list and the loop stops
  at the first path that matches: if the path at index \<open>i\<close> matches, then the requests
  made are those for the paths up to the first matching index \<open>m \<le> i\<close>, in list order,
  so no path at an index above \<open>i\<close> is requested.
\<close>

theorem short_circuit:
  assumes "i < length (paths cl)" "pathMatches cl srv sub (paths cl ! i)"
  shows "\<exists>m \<le> i. pathMatches cl srv sub (paths cl ! m) \<and>
           (\<forall>j < m. \<not> pathMatches cl srv sub (paths cl ! j)) \<and>
           found (checkSubdomain cl srv sub) \<and>
           requested (checkSubdomain cl srv sub) =
             map (\<lambda>p. sub @ ''/'' @ p) (take (Suc m) (paths cl))"
proof -
  from first_match_index [of i "paths cl" "pathMatches cl srv sub", OF assms]
  obtain m where m: "m \<le> i" "pathMatches cl srv sub (paths cl ! m)"
    "\<forall>j < m. \<not> pathMatches cl srv sub (paths cl ! j)" by blast
  with assms(1) have "m < length (paths cl)" by simp
  from pathLoop_stops_at [OF this m(2,3)] m show ?thesis
    unfolding checkSubdomain_def by blast
qed

theorem short_circuit_witness:
  "pathMatches (variant1 noMap) onlyRegister ''http://h.test'' (paths (variant1 noMap) ! 1) \<and>
   found (checkSubdomain (variant1 noMap) onlyRegister ''http://h.test'') \<and>
   length (requested (checkSubdomain (variant1 noMap) onlyRegister ''http://h.test'')) \<le> 2"
proof -
  have len: "(1 :: nat) < length (paths (variant1 noMap))"
    by (simp add: variant1_def createAccountPaths_def)
  have hit: "pathMatches (variant1 noMap) onlyRegister ''http://h.test'' (paths (variant1 noMap) ! 1)"
    by code_simp
  from short_circuit [OF len hit] obtain m where
    "m \<le> 1" "found (checkSubdomain (variant1 noMap) onlyRegister ''http://h.test'')"
    "requested (checkSubdomain (variant1 noMap) onlyRegister ''http://h.test'') =
       map (\<lambda>p. ''http://h.test'' @ ''/'' @ p) (take (Suc m) (paths (variant1 noMap)))"
    by blast
  with hit show ?thesis by simp
qed

subsection \<open>Transport errors\<close>

text \<open>
  C7. A transport error at one path sends the loop to the next path with its
  variables unchanged: the path is not a match and the candidate is not given up.
  Whatever the answers, the requests made are an initial part of the path list, so no
  path is requested twice. When every path fails, the verdict is not-matched (a
  verdict, not an error) and every path of the list has been requested once, in order.
\<close>

theorem transport_errors_skipped:
  "(srv (sub @ ''/'' @ path) = GetFailed \<longrightarrow>
      \<not> pathMatches cl srv sub path \<and>
      pathLoop cl srv sub (path # rest) redir kw =
        asked (sub @ ''/'' @ path) (pathLoop cl srv sub rest redir kw)) \<and>
   prefix (requested (checkSubdomain cl srv sub)) (map (\<lambda>p. sub @ ''/'' @ p) (paths cl)) \<and>
   ((\<forall>p \<in> set (paths cl). srv (sub @ ''/'' @ p) = GetFailed) \<longrightarrow>
      \<not> found (checkSubdomain cl srv sub) \<and>
      requested (checkSubdomain cl srv sub) = map (\<lambda>p. sub @ ''/'' @ p) (paths cl))"
  using pathLoop_all_failed [of "paths cl" srv sub cl "[]" "[]"]
    requested_prefix [of cl srv sub "paths cl" "[]" "[]"]
  by (simp add: checkSubdomain_def pathMatches_def)

theorem transport_errors_skipped_witness:
  "unreachable ''http://h.test/login'' = GetFailed \<and>
   \<not> found (checkSubdomain (variant1 noMap) unreachable ''http://h.test'') \<and>
   length (requested (checkSubdomain (variant1 noMap) unreachable ''http://h.test'')) = 11"
proof -
  have all: "\<forall>p \<in> set (paths (variant1 noMap)). unreachable (''http://h.test'' @ ''/'' @ p) = GetFailed"
    by (simp add: unreachable_def)
  have "length (paths (variant1 noMap)) = 11" by (simp add: variant1_def createAccountPaths_def)
  with transport_errors_skipped [of unreachable "''http://h.test''" "''login''" "variant1 noMap" "[]" "[]" "[]"] all
  show ?thesis by (simp add: unreachable_def)
qed

subsection \<open>Link detection\<close>

text \<open>
  C5, as the code has it, for every body and whatever \<open>Map\<close> does on text that is not
  ASCII. In the first variant the elements are the matches of the pattern, found from
  left to right without overlap. The link test is set by a match whose first or second
  group (the \<open>href\<close> value and the text of an anchor) holds a keyword; it is set only
  when some group of a match holds a keyword, and then, on an ASCII body, the body
  itself holds one. In the second variant no element is extracted: the link test is
  true exactly when the lower-cased body contains one of the four link phrases,
  anywhere.
\<close>

theorem links_by_design:
  "((\<exists>m \<in> set (FindAllStringSubmatch linkPattern 3 body).
        findMatchingKeyword uni (m ! 1) \<noteq> [] \<or> findMatchingKeyword uni (m ! 2) \<noteq> [])
      \<longrightarrow> containsCreateAccountLinks uni body) \<and>
   (containsCreateAccountLinks uni body \<longrightarrow>
      (\<exists>m \<in> set (FindAllStringSubmatch linkPattern 3 body).
         \<exists>g \<in> {1, 2, 3}. findMatchingKeyword uni (m ! g) \<noteq> []) \<and>
      (list_all isASCII body \<longrightarrow> findMatchingKeyword uni body \<noteq> [])) \<and>
   (containsCreateAccountLinks2 uni body \<longleftrightarrow>
      (\<exists>l \<in> set links2. sublist l (ToLower uni body)))"
proof (intro conjI impI)
  assume "\<exists>m \<in> set (FindAllStringSubmatch linkPattern 3 body).
        findMatchingKeyword uni (m ! 1) \<noteq> [] \<or> findMatchingKeyword uni (m ! 2) \<noteq> []"
  then obtain m where m: "m \<in> set (FindAllStringSubmatch linkPattern 3 body)"
    "findMatchingKeyword uni (m ! 1) \<noteq> [] \<or> findMatchingKeyword uni (m ! 2) \<noteq> []"
    by blast
  from submatch_entries [OF m(1)] have "length m = 4" by simp
  with m(2) have "(1 < length m \<and> findMatchingKeyword uni (m ! 1) \<noteq> []) \<or>
                  (2 < length m \<and> findMatchingKeyword uni (m ! 2) \<noteq> [])" by auto
  with m(1) show "containsCreateAccountLinks uni body"
    unfolding containsCreateAccountLinks_def linkLoop_iff by blast
next
  assume "containsCreateAccountLinks uni body"
  then obtain m where m: "m \<in> set (FindAllStringSubmatch linkPattern 3 body)"
    "findMatchingKeyword uni (m ! 1) \<noteq> [] \<or> findMatchingKeyword uni (m ! 2) \<noteq> []"
    unfolding containsCreateAccountLinks_def linkLoop_iff by blast
  then show "\<exists>m \<in> set (FindAllStringSubmatch linkPattern 3 body).
         \<exists>g \<in> {1, 2, 3}. findMatchingKeyword uni (m ! g) \<noteq> []" by blast
next
  assume "containsCreateAccountLinks uni body" and asc: "list_all isASCII body"
  then obtain m where m: "m \<in> set (FindAllStringSubmatch linkPattern 3 body)"
    "findMatchingKeyword uni (m ! 1) \<noteq> [] \<or> findMatchingKeyword uni (m ! 2) \<noteq> []"
    unfolding containsCreateAccountLinks_def linkLoop_iff by blast
  from submatch_entries [OF m(1)] have "sublist (m ! 1) body" "sublist (m ! 2) body" by simp_all
  with m(2) asc show "findMatchingKeyword uni body \<noteq> []"
    using findMatchingKeyword_mono by blast
next
  show "containsCreateAccountLinks2 uni body \<longleftrightarrow>
      (\<exists>l \<in> set links2. sublist l (ToLower uni body))"
    by (simp add: containsCreateAccountLinks2_def anyLink_iff Contains_def)
qed

theorem links_by_design_witness:
  "FindAllStringSubmatch linkPattern 3 anchorPage =
     [[drop 6 anchorPage, ''/login'', ''Go'', []]] \<and>
   containsCreateAccountLinks noMap anchorPage \<and> findMatchingKeyword noMap anchorPage \<noteq> [] \<and>
   containsCreateAccountLinks2 noMap ''Join us''"
proof -
  have ms: "FindAllStringSubmatch linkPattern 3 anchorPage =
     [[drop 6 anchorPage, ''/login'', ''Go'', []]]"
    by code_simp
  have "findMatchingKeyword noMap ''/login'' \<noteq> []" by code_simp
  with ms have h: "\<exists>m \<in> set (FindAllStringSubmatch linkPattern 3 anchorPage).
        findMatchingKeyword noMap (m ! 1) \<noteq> [] \<or> findMatchingKeyword noMap (m ! 2) \<noteq> []"
    by simp
  have asc: "list_all isASCII anchorPage" by code_simp
  have j: "\<exists>l \<in> set links2. sublist l (ToLower noMap ''Join us'')" by code_simp
  from links_by_design [of anchorPage noMap] h asc
  have "containsCreateAccountLinks noMap anchorPage"
    "findMatchingKeyword noMap anchorPage \<noteq> []" by blast+
  moreover from links_by_design [of "''Join us''" noMap] j
  have "containsCreateAccountLinks2 noMap ''Join us''" by blast
  ultimately show ?thesis using ms by simp
qed

text \<open>
  C5, as stated, fails in the second variant: a keyword in plain text, with no anchor
  or button element in the body at all, sets the link test.
\<close>

theorem link_outside_element:
  "containsCreateAccountLinks2 noMap ''please register'' \<and>
   FindAllStringSubmatch linkPattern 3 ''please register'' = []"
  by code_simp

text \<open>
  In the first variant an element is what the pattern finds: an anchor without a
  double-quoted \<open>href\<close> is not one, whatever its text.
\<close>

lemma anchor_without_href_not_scanned:
  "FindAllStringSubmatch linkPattern 3 ''<a>Login</a>'' = [] \<and>
   \<not> containsCreateAccountLinks noMap ''<a>Login</a>''"
  by code_simp

text \<open>
  In the first variant the text of a button is captured (group 3) but the loop looks
  at groups 1 and 2 only, so a keyword that stands in a button text alone is not seen.
\<close>

lemma button_text_not_inspected:
  "FindAllStringSubmatch linkPattern 3 ''<button>Sign up</button>'' =
     [[''<button>Sign up</button>'', [], [], ''Sign up'']] \<and>
   findMatchingKeyword noMap ''Sign up'' = ''sign up'' \<and>
   \<not> containsCreateAccountLinks noMap ''<button>Sign up</button>'' \<and>
   containsCreateAccountLinks2 noMap ''<button>Sign up</button>''"
  by code_simp

subsection \<open>The two form tests\<close>

text \<open>
  C10, as the code has it. The pattern of the first variant matches exactly when some
  occurrence of \<open><form\<close> is followed, anywhere later, by \<open>>\<close>; the test of the second
  variant holds exactly when \<open><form\<close> occurs. So the first implies the second, and the
  two differ on the bodies where no \<open>>\<close> follows any \<open><form\<close>.
\<close>

theorem form_tests_related:
  "(containsForm body \<longrightarrow> containsForm2 body) \<and>
   (containsForm body \<longleftrightarrow> (\<exists>pre post. body = pre @ ''<form'' @ post \<and> CHR ''>'' \<in> set post)) \<and>
   (containsForm2 body \<longleftrightarrow> (\<exists>pre post. body = pre @ ''<form'' @ post))"
  using containsForm_iff [of body] containsForm2_iff [of body] by blast

theorem form_tests_related_witness:
  "containsForm ''<form action=x>'' \<and> containsForm2 ''<form action=x>''"
proof -
  have "containsForm ''<form action=x>''" by code_simp
  with form_tests_related [of "''<form action=x>''"] show ?thesis by blast
qed

text \<open>C10, as stated, fails on an opening tag that is never closed.\<close>

theorem form_tests_differ:
  "\<not> containsForm ''<form'' \<and> containsForm2 ''<form''"
  by code_simp

subsection \<open>The goroutines\<close>

text \<open>
  C1 at a failing run. Two candidates, both with a portal. Each goroutine evaluates
  \<open>append(validSubdomains, subdomain)\<close> on the still empty slice before the other has
  assigned its result; the second assignment overwrites the first. \<open>main\<close> passes
  \<open>wg.Wait\<close> with both goroutines done and the counter at 2, and \<open>validSubdomains\<close>
  holds one of the two matched candidates. (The other parts of C1 hold along every
  schedule: \<open>counter_at_return\<close> and \<open>outcome_at_return\<close>.)
\<close>

theorem append_loses_candidate:
  "verdict1 noMap twoPortals ''http://a.test'' \<and> verdict1 noMap twoPortals ''http://b.test'' \<and>
   map_option (\<lambda>s. (validSubdomains s, progress s))
     (mainRun FirstVariant (verdict1 noMap twoPortals) [''http://a.test'', ''http://b.test'']
        [0, 0, 1, 1, 0, 1, 0, 0, 0, 0, 1, 1, 1, 1])
   = Some ([''http://b.test''], 2)"
  by code_simp



text \<open>
  C9 at a failing run. In the first variant goroutine 0 assigns \<open>validSubdomains\<close>
  while goroutine 1 holds the mutex: the state before and after its step. In the
  second variant goroutine 1 writes to the output file while goroutine 0 holds it.
  (The increment of the counter is guarded along every schedule:
  \<open>increment_is_guarded\<close>.)
\<close>

theorem append_outside_mutex:
  "map_option (\<lambda>s. (muHolder s, workers s ! 0, validSubdomains s))
     (exec FirstVariant (verdict1 noMap twoPortals) [''http://a.test'', ''http://b.test'']
        [0, 0, 1, 1, 1, 1] (initial [''http://a.test'', ''http://b.test'']))
   = Some (Some 1, AtAppendWrite [], [''http://b.test'']) \<and>
   map_option (\<lambda>s. (muHolder s, workers s ! 0, validSubdomains s))
     (exec FirstVariant (verdict1 noMap twoPortals) [''http://a.test'', ''http://b.test'']
        [0, 0, 1, 1, 1, 1, 0] (initial [''http://a.test'', ''http://b.test'']))
   = Some (Some 1, AtLock, [''http://a.test'']) \<and>
   map_option (\<lambda>s. (muHolder s, outputFile s))
     (exec SecondVariant (verdict2 noMap twoPortals2) [''http://a.test'', ''http://b.test'']
        [0, 0, 1] (initial [''http://a.test'', ''http://b.test'']))
   = Some (Some 0, [''http://a.test'', ''http://b.test''])"
  by code_simp

end
